theory Spec2Isabelle
  imports Complex_Main
begin

section \<open>The page as the script sees it\<close>

text \<open>
  \<^verbatim>\<open>script.js\<close> keeps no state of its own: every function reads and writes the
  document. The model is a record of the parts of the document the script touches, passed
  in and returned updated. Lengths that the CSSOM gives as integers (\<^verbatim>\<open>offsetTop\<close>,
  \<^verbatim>\<open>clientHeight\<close>, \<^verbatim>\<open>offsetHeight\<close>, \<^verbatim>\<open>innerWidth\<close>) are \<open>int\<close>; \<^verbatim>\<open>scrollY\<close> and the
  edges of a bounding rectangle may be fractional and are \<open>rat\<close>. An attribute read with
  \<^verbatim>\<open>getAttribute\<close> is a \<open>string option\<close>, \<open>None\<close> being \<^verbatim>\<open>null\<close>. A \<^verbatim>\<open>classList\<close> is the
  list of its tokens.
\<close>

datatype js_error = TypeError | SyntaxError

datatype outcome = Completed | Threw js_error

record section_el =
  offsetTop :: int
  clientHeight :: int
  sec_id :: "string option"

record nav_link =
  href :: "string option"
  classList :: "string list"

record menu_toggle_el =
  aria_expanded :: "string option"

record target_el =
  target_offsetTop :: int

record anim_el =
  rect_top :: rat
  rect_bottom :: rat
  el_classList :: "string list"
  style_opacity :: string
  style_transform :: string
  style_transition :: string

record page =
  navbar :: "int option"
  navLinks :: "nav_link list"
  menuToggle :: "menu_toggle_el option"
  navLinksContainer :: "string list option"
  sections :: "section_el list"
  scrollY :: rat
  innerWidth :: int
  innerHeight :: int
  docClientHeight :: int
  body_overflow :: string
  elements :: "anim_el list"
  timers :: "nat list"
  setTimeout_log :: "nat list"
  scrollTo_calls :: "int list"
  history :: "string list"
  querySelector :: "string \<Rightarrow> js_error + target_el option"

text \<open>
  \<open>navbar\<close> is the \<^verbatim>\<open>offsetHeight\<close> of the element \<^verbatim>\<open>.navbar\<close>, \<open>menuToggle\<close> the element
  \<^verbatim>\<open>.menu-toggle\<close> and \<open>navLinksContainer\<close> the class list of \<^verbatim>\<open>.nav-links\<close>; each is
  \<open>None\<close> when \<^verbatim>\<open>document.querySelector\<close> found nothing, and a member access on it then
  throws a \<^verbatim>\<open>TypeError\<close>. \<open>timers\<close> holds the pending callbacks of \<^verbatim>\<open>animateOnScroll\<close> (the
  index of the element each will restyle, oldest first), \<open>setTimeout_log\<close> every such
  callback ever scheduled, \<open>scrollTo_calls\<close> the \<^verbatim>\<open>top\<close> of every \<^verbatim>\<open>window.scrollTo\<close>, and
  \<open>history\<close> the URLs given to \<^verbatim>\<open>history.pushState\<close>. \<open>querySelector\<close> is
  \<^verbatim>\<open>document.querySelector\<close> on the selectors the click handler passes to it: it throws a
  \<^verbatim>\<open>SyntaxError\<close> on a string that is no selector and returns \<^verbatim>\<open>null\<close> when nothing matches.
\<close>

subsection \<open>Class lists\<close>

definition contains :: "string \<Rightarrow> string list \<Rightarrow> bool" where
  "contains c cl = (c \<in> set cl)"

definition remove :: "string \<Rightarrow> string list \<Rightarrow> string list" where
  "remove c cl = removeAll c cl"

definition add :: "string \<Rightarrow> string list \<Rightarrow> string list" where
  "add c cl = (if contains c cl then cl else cl @ [c])"

definition toggle :: "string \<Rightarrow> string list \<Rightarrow> string list" where
  "toggle c cl = (if contains c cl then remove c cl else add c cl)"

section \<open>Navigation\<close>

subsection \<open>updateActiveNavLink\<close>

text \<open>
  The first loop of \<^verbatim>\<open>updateActiveNavLink\<close>: \<open>current\<close> starts as the empty string and
  every section whose range holds \<^verbatim>\<open>scrollY\<close> overwrites it with its \<^verbatim>\<open>id\<close> attribute.
\<close>

definition in_section :: "rat \<Rightarrow> section_el \<Rightarrow> bool" where
  "in_section y s =
     (let sectionTop = offsetTop s - 100;
          sectionHeight = clientHeight s
      in of_int sectionTop \<le> y \<and> y < of_int (sectionTop + sectionHeight))"

definition section_step :: "rat \<Rightarrow> string option \<Rightarrow> section_el \<Rightarrow> string option" where
  "section_step y current s = (if in_section y s then sec_id s else current)"

definition current_section :: "page \<Rightarrow> string option" where
  "current_section st = foldl (section_step (scrollY st)) (Some []) (sections st)"

text \<open>The template literal \<^verbatim>\<open>`#${current}`\<close>; \<^verbatim>\<open>null\<close> prints as \<^verbatim>\<open>null\<close>.\<close>

definition hash_of :: "string option \<Rightarrow> string" where
  "hash_of current = CHR ''#'' # (case current of None \<Rightarrow> ''null'' | Some s \<Rightarrow> s)"

definition link_step :: "string option \<Rightarrow> nav_link \<Rightarrow> nav_link" where
  "link_step current link =
     (let link1 = link\<lparr>classList := remove ''active'' (classList link)\<rparr>
      in if href link1 = Some (hash_of current)
         then link1\<lparr>classList := add ''active'' (classList link1)\<rparr>
         else link1)"

definition updateActiveNavLink :: "page \<Rightarrow> page" where
  "updateActiveNavLink st =
     (let current = current_section st
      in st\<lparr>navLinks := map (link_step current) (navLinks st)\<rparr>)"

definition is_active :: "nav_link \<Rightarrow> bool" where
  "is_active link = contains ''active'' (classList link)"


section \<open>The mobile menu\<close>

text \<open>\<^verbatim>\<open>setAttribute\<close> stores the string of the boolean it is given.\<close>

definition js_string_of_bool :: "bool \<Rightarrow> string" where
  "js_string_of_bool b = (if b then ''true'' else ''false'')"

text \<open>
  A function that can throw returns how it ended together with the page as it left it: the
  writes made before a throw stay.
\<close>

definition toggleMobileMenu :: "page \<Rightarrow> outcome \<times> page" where
  "toggleMobileMenu st =
     (case menuToggle st of
        None \<Rightarrow> (Threw TypeError, st)
      | Some mt \<Rightarrow>
          let isExpanded = (aria_expanded mt = Some ''true'');
              st1 = st\<lparr>menuToggle :=
                      Some (mt\<lparr>aria_expanded := Some (js_string_of_bool (\<not> isExpanded))\<rparr>)\<rparr>
          in (case navLinksContainer st1 of
                None \<Rightarrow> (Threw TypeError, st1)
              | Some cl \<Rightarrow>
                  (Completed,
                   st1\<lparr>navLinksContainer := Some (toggle ''active'' cl),
                       body_overflow := (if isExpanded then [] else ''hidden'')\<rparr>)))"

definition closeMobileMenu :: "page \<Rightarrow> outcome \<times> page" where
  "closeMobileMenu st =
     (case menuToggle st of
        None \<Rightarrow> (Threw TypeError, st)
      | Some mt \<Rightarrow>
          let st1 = st\<lparr>menuToggle := Some (mt\<lparr>aria_expanded := Some ''false''\<rparr>)\<rparr>
          in (case navLinksContainer st1 of
                None \<Rightarrow> (Threw TypeError, st1)
              | Some cl \<Rightarrow>
                  (Completed,
                   st1\<lparr>navLinksContainer := Some (remove ''active'' cl),
                       body_overflow := []\<rparr>)))"

section \<open>Reveal animation\<close>

text \<open>
  \<^verbatim>\<open>isInViewport\<close> compares the top of the rectangle with the floating-point product
  \<^verbatim>\<open>(window.innerHeight || document.documentElement.clientHeight) * 0.8\<close>. The literal
  \<^verbatim>\<open>0.8\<close> is the double \<open>3602879701896397 / 2^52\<close>, and the product of two doubles is the
  exact product rounded to 53 significant bits, ties to the even significand. The heights
  are integers below \<open>2^53\<close>, so they are doubles themselves and the product is far from
  overflow and from the subnormal range.
\<close>

fun bit_length :: "nat \<Rightarrow> nat" where
  "bit_length n = (if n = 0 then 0 else Suc (bit_length (n div 2)))"

declare bit_length.simps [simp del]

text \<open>\<open>n / 2^s\<close> rounded to the nearest integer, ties to even.\<close>

definition round_shift :: "nat \<Rightarrow> nat \<Rightarrow> nat" where
  "round_shift n s =
     (let q = n div 2 ^ s;
          r = n mod 2 ^ s
      in if 2 * r < 2 ^ s then q
         else if 2 ^ s < 2 * r then q + 1
         else if even q then q else q + 1)"

text \<open>The double \<^verbatim>\<open>h * 0.8\<close> for an integer \<open>h\<close>, as a rational number.\<close>

definition times_0_8 :: "int \<Rightarrow> rat" where
  "times_0_8 h =
     (let n = nat \<bar>h\<bar> * 3602879701896397;
          s = bit_length n - 53;
          m = round_shift n s
      in of_int (sgn h) * of_nat (m * 2 ^ s) / 2 ^ 52)"

definition isInViewport :: "page \<Rightarrow> anim_el \<Rightarrow> bool" where
  "isInViewport st element =
     (let h = (if innerHeight st \<noteq> 0 then innerHeight st else docClientHeight st)
      in rect_top element \<le> times_0_8 h \<and> 0 \<le> rect_bottom element)"

text \<open>
  The selector \<^verbatim>\<open>.skill-category, .project-card, .timeline-item, .contact-card\<close>.
\<close>

definition matches_reveal_selector :: "anim_el \<Rightarrow> bool" where
  "matches_reveal_selector element =
     (contains ''skill-category'' (el_classList element) \<or>
      contains ''project-card'' (el_classList element) \<or>
      contains ''timeline-item'' (el_classList element) \<or>
      contains ''contact-card'' (el_classList element))"

definition should_animate :: "page \<Rightarrow> anim_el \<Rightarrow> bool" where
  "should_animate st element =
     (matches_reveal_selector element \<and> isInViewport st element \<and>
      \<not> contains ''animated'' (el_classList element))"

text \<open>What the body of the loop writes to an element before it calls \<^verbatim>\<open>setTimeout\<close>.\<close>

definition mark_animated :: "anim_el \<Rightarrow> anim_el" where
  "mark_animated element =
     element\<lparr>el_classList := add ''animated'' (el_classList element),
             style_opacity := ''0'',
             style_transform := ''translateY(20px)''\<rparr>"

text \<open>The callback given to \<^verbatim>\<open>setTimeout\<close>.\<close>

definition reveal :: "anim_el \<Rightarrow> anim_el" where
  "reveal element =
     element\<lparr>style_transition := ''opacity 0.6s ease, transform 0.6s ease'',
             style_opacity := ''1'',
             style_transform := ''translateY(0)''\<rparr>"

text \<open>
  The loop over the elements, in document order: the elements as the loop leaves them, and
  the indices of those it scheduled a callback for.
\<close>

fun animate_from :: "page \<Rightarrow> nat \<Rightarrow> anim_el list \<Rightarrow> anim_el list \<times> nat list" where
  "animate_from st i [] = ([], [])"
| "animate_from st i (element # rest) =
     (let (rest', started) = animate_from st (Suc i) rest
      in if should_animate st element
         then (mark_animated element # rest', i # started)
         else (element # rest', started))"

definition animateOnScroll :: "page \<Rightarrow> page" where
  "animateOnScroll st =
     (let (els, started) = animate_from st 0 (elements st)
      in st\<lparr>elements := els,
            timers := timers st @ started,
            setTimeout_log := setTimeout_log st @ started\<rparr>)"

text \<open>
  The oldest pending callback runs (all have the same delay, so they run in the order they
  were scheduled).
\<close>

definition fire_timer :: "page \<Rightarrow> page" where
  "fire_timer st =
     (case timers st of
        [] \<Rightarrow> st
      | i # rest \<Rightarrow>
          st\<lparr>timers := rest,
              elements := (if i < length (elements st)
                           then (elements st)[i := reveal (elements st ! i)]
                           else elements st)\<rparr>)"

text \<open>
  The browser scrolls the page by \<open>dy\<close>: every bounding rectangle moves up by \<open>dy\<close>.
\<close>

definition scrolled :: "rat \<Rightarrow> page \<Rightarrow> page" where
  "scrolled dy st =
     st\<lparr>scrollY := scrollY st + dy,
         elements := map (\<lambda>e. e\<lparr>rect_top := rect_top e - dy, rect_bottom := rect_bottom e - dy\<rparr>)
                       (elements st)\<rparr>"

datatype anim_event = AnimateOnScroll | TimerFires | Scrolled rat

fun anim_step :: "page \<Rightarrow> anim_event \<Rightarrow> page" where
  "anim_step st AnimateOnScroll = animateOnScroll st"
| "anim_step st TimerFires = fire_timer st"
| "anim_step st (Scrolled dy) = scrolled dy st"

definition anim_run :: "page \<Rightarrow> anim_event list \<Rightarrow> page" where
  "anim_run st evs = foldl anim_step st evs"

text \<open>
  What the claims about the animation speak of: whether element \<open>i\<close> carries the marker
  class, how many callbacks have been scheduled for it so far, and its three inline styles.
\<close>

definition has_marker :: "page \<Rightarrow> nat \<Rightarrow> bool" where
  "has_marker st i =
     (i < length (elements st) \<and> contains ''animated'' (el_classList (elements st ! i)))"

definition times_started :: "page \<Rightarrow> nat \<Rightarrow> nat" where
  "times_started st i = count_list (setTimeout_log st) i"

definition styles :: "anim_el \<Rightarrow> string \<times> string \<times> string" where
  "styles element = (style_opacity element, style_transform element, style_transition element)"

text \<open>
  The callbacks scheduled for element \<open>i\<close> so far, plus the one it can still get while it
  has no marker.
\<close>

definition budget :: "page \<Rightarrow> nat \<Rightarrow> nat" where
  "budget st i = times_started st i + (if has_marker st i then 0 else 1)"

section \<open>Smooth scrolling\<close>

text \<open>
  The click listener of an anchor \<^verbatim>\<open>a[href^="#"]\<close>, given the \<^verbatim>\<open>href\<close> of the anchor: whether
  \<^verbatim>\<open>preventDefault\<close> was called, how the listener ended, and the page afterwards.
\<close>

definition anchor_click :: "string \<Rightarrow> page \<Rightarrow> bool \<times> outcome \<times> page" where
  "anchor_click hr st =
     (if hr = ''#'' then (False, Completed, st)
      else
        (case querySelector st hr of
           Inl err \<Rightarrow> (True, Threw err, st)
         | Inr None \<Rightarrow> (True, Completed, st)
         | Inr (Some targetElement) \<Rightarrow>
             (case closeMobileMenu st of
                (Threw err, st1) \<Rightarrow> (True, Threw err, st1)
              | (Completed, st1) \<Rightarrow>
                  (case navbar st1 of
                     None \<Rightarrow> (True, Threw TypeError, st1)
                   | Some headerHeight \<Rightarrow>
                       let targetPosition = target_offsetTop targetElement - headerHeight;
                           st2 = st1\<lparr>scrollTo_calls := scrollTo_calls st1 @ [targetPosition]\<rparr>
                       in if hr \<noteq> ''#home''
                          then (True, Completed, st2\<lparr>history := history st2 @ [hr]\<rparr>)
                          else (True, Completed, st2)))))"

section \<open>Event listeners\<close>

text \<open>
  A click on the document: \<open>target_in_container\<close> and \<open>target_in_toggle\<close> are what
  \<^verbatim>\<open>navLinksContainer.contains(e.target)\<close> and \<^verbatim>\<open>menuToggle.contains(e.target)\<close> return.
\<close>

record click_event =
  target_in_container :: bool
  target_in_toggle :: bool

definition document_click :: "click_event \<Rightarrow> page \<Rightarrow> outcome \<times> page" where
  "document_click e st =
     (case navLinksContainer st of
        None \<Rightarrow> (Threw TypeError, st)
      | Some cl \<Rightarrow>
          if target_in_container e then (Completed, st)
          else (case menuToggle st of
                  None \<Rightarrow> (Threw TypeError, st)
                | Some mt \<Rightarrow>
                    if target_in_toggle e then (Completed, st)
                    else if contains ''active'' cl then closeMobileMenu st
                    else (Completed, st)))"

definition document_keydown :: "string \<Rightarrow> page \<Rightarrow> outcome \<times> page" where
  "document_keydown key st =
     (if key = ''Escape''
      then (case navLinksContainer st of
              None \<Rightarrow> (Threw TypeError, st)
            | Some cl \<Rightarrow> if contains ''active'' cl then closeMobileMenu st else (Completed, st))
      else (Completed, st))"

text \<open>The functions given to \<^verbatim>\<open>debounce\<close> for the scroll and the resize events.\<close>

definition scroll_listener :: "page \<Rightarrow> page" where
  "scroll_listener st = animateOnScroll (updateActiveNavLink st)"

definition resize_listener :: "page \<Rightarrow> outcome \<times> page" where
  "resize_listener st = (if innerWidth st > 768 then closeMobileMenu st else (Completed, st))"

text \<open>
  Everything of the script that can write the menu state: the two functions exposed on
  \<^verbatim>\<open>window.portfolio\<close> (the first is also the click listener of the toggle) and the listeners.
\<close>

datatype operation =
    CallToggleMobileMenu
  | CallCloseMobileMenu
  | DocumentClick click_event
  | KeyDown string
  | ResizeFired
  | ScrollFired
  | AnchorClick string

fun perform :: "page \<Rightarrow> operation \<Rightarrow> page" where
  "perform st CallToggleMobileMenu = snd (toggleMobileMenu st)"
| "perform st CallCloseMobileMenu = snd (closeMobileMenu st)"
| "perform st (DocumentClick e) = snd (document_click e st)"
| "perform st (KeyDown key) = snd (document_keydown key st)"
| "perform st ResizeFired = snd (resize_listener st)"
| "perform st ScrollFired = scroll_listener st"
| "perform st (AnchorClick hr) = snd (snd (anchor_click hr st))"

text \<open>
  The expanded state as the script reads it, and the agreement of its two representations
  on a page that has both elements.
\<close>

definition is_expanded :: "menu_toggle_el \<Rightarrow> bool" where
  "is_expanded mt = (aria_expanded mt = Some ''true'')"

definition menu_agrees :: "page \<Rightarrow> bool" where
  "menu_agrees st =
     (case menuToggle st of
        None \<Rightarrow> False
      | Some mt \<Rightarrow>
          (case navLinksContainer st of
             None \<Rightarrow> False
           | Some cl \<Rightarrow> is_expanded mt = contains ''active'' cl))"

section \<open>Debounce\<close>

text \<open>
  The closure that \<^verbatim>\<open>debounce(func, wait)\<close> returns owns one variable, \<^verbatim>\<open>timeout\<close>, which is
  \<^verbatim>\<open>undefined\<close> or the id of the timer it started last. The timers it has started and that
  have neither run nor been cleared are in the timer table of the browser: each with its
  id, the milliseconds it has left and the arguments its callback \<^verbatim>\<open>later\<close> has captured.
  Ids are never reused. \<open>'w\<close> is whatever \<^verbatim>\<open>func\<close> acts on.
\<close>

record 'a timer =
  timer_id :: nat
  time_left :: nat
  timer_args :: 'a

record 'a debounce =
  timeout :: "nat option"
  pending :: "'a timer list"
  next_id :: nat

text \<open>The closure as \<^verbatim>\<open>debounce\<close> returns it: \<^verbatim>\<open>let timeout;\<close> and no timer started.\<close>

definition new_debounce :: "nat \<Rightarrow> 'a debounce" where
  "new_debounce n = \<lparr>timeout = None, pending = [], next_id = n\<rparr>"

text \<open>
  \<^verbatim>\<open>clearTimeout(id)\<close> takes the timer with that id out of the table; it does nothing for
  \<^verbatim>\<open>undefined\<close> and for an id that is not pending. \<^verbatim>\<open>setTimeout\<close> enters a timer under a
  fresh id and returns the id.
\<close>

definition clearTimeout :: "nat option \<Rightarrow> 'a timer list \<Rightarrow> 'a timer list" where
  "clearTimeout tid tb =
     (case tid of None \<Rightarrow> tb | Some i \<Rightarrow> filter (\<lambda>t. timer_id t \<noteq> i) tb)"

definition setTimeout :: "'a \<Rightarrow> nat \<Rightarrow> 'a debounce \<Rightarrow> nat \<times> 'a debounce" where
  "setTimeout args wait s =
     (next_id s,
      s\<lparr>pending := pending s @ [\<lparr>timer_id = next_id s, time_left = wait, timer_args = args\<rparr>],
        next_id := Suc (next_id s)\<rparr>)"

definition later :: "('a \<Rightarrow> 'w \<Rightarrow> 'w) \<Rightarrow> 'a \<Rightarrow> 'a debounce \<times> 'w \<Rightarrow> 'a debounce \<times> 'w" where
  "later func args sw =
     (case sw of (s, w) \<Rightarrow>
        (s\<lparr>pending := clearTimeout (timeout s) (pending s)\<rparr>, func args w))"

definition executedFunction :: "nat \<Rightarrow> 'a \<Rightarrow> 'a debounce \<times> 'w \<Rightarrow> 'a debounce \<times> 'w" where
  "executedFunction wait args sw =
     (case sw of (s, w) \<Rightarrow>
        let s1 = s\<lparr>pending := clearTimeout (timeout s) (pending s)\<rparr>;
            (i, s2) = setTimeout args wait s1
        in (s2\<lparr>timeout := Some i\<rparr>, w))"

text \<open>
  A timer whose time is up runs if it is still in the table: the browser takes it out and
  calls \<^verbatim>\<open>later\<close>.
\<close>

definition run_timer :: "('a \<Rightarrow> 'w \<Rightarrow> 'w) \<Rightarrow> 'a debounce \<times> 'w \<Rightarrow> 'a timer \<Rightarrow> 'a debounce \<times> 'w" where
  "run_timer func sw t =
     (case sw of (s, w) \<Rightarrow>
        if timer_id t \<in> set (map timer_id (pending s))
        then later func (timer_args t)
               (s\<lparr>pending := filter (\<lambda>u. timer_id u \<noteq> timer_id t) (pending s)\<rparr>, w)
        else (s, w))"

text \<open>
  \<open>d\<close> milliseconds pass without a call: the timers whose time is up within them run,
  the one with the least time left first and the older one first among equals; the timers
  that remain have \<open>d\<close> milliseconds less.
\<close>

definition elapse :: "('a \<Rightarrow> 'w \<Rightarrow> 'w) \<Rightarrow> nat \<Rightarrow> 'a debounce \<times> 'w \<Rightarrow> 'a debounce \<times> 'w" where
  "elapse func d sw =
     (case sw of (s, w) \<Rightarrow>
        let due = sort_key time_left (filter (\<lambda>t. time_left t \<le> d) (pending s));
            (s1, w1) = foldl (run_timer func) (s, w) due
        in (s1\<lparr>pending := map (\<lambda>t. t\<lparr>time_left := time_left t - d\<rparr>) (pending s1)\<rparr>, w1))"

datatype 'a call_event = Invoke 'a | Elapse nat

fun debounced_step ::
  "('a \<Rightarrow> 'w \<Rightarrow> 'w) \<Rightarrow> nat \<Rightarrow> 'a debounce \<times> 'w \<Rightarrow> 'a call_event \<Rightarrow> 'a debounce \<times> 'w" where
  "debounced_step func wait sw (Invoke args) = executedFunction wait args sw"
| "debounced_step func wait sw (Elapse d) = elapse func d sw"

definition debounced_run ::
  "('a \<Rightarrow> 'w \<Rightarrow> 'w) \<Rightarrow> nat \<Rightarrow> 'a debounce \<times> 'w \<Rightarrow> 'a call_event list \<Rightarrow> 'a debounce \<times> 'w" where
  "debounced_run func wait sw evs = foldl (debounced_step func wait) sw evs"

text \<open>
  Trailing-edge debounce as the specification words it: a call survives when the stream
  stays quiet for the wait after it, and only then.
\<close>

fun quiet_time :: "'a call_event list \<Rightarrow> nat" where
  "quiet_time [] = 0"
| "quiet_time (Invoke args # evs) = 0"
| "quiet_time (Elapse d # evs) = d + quiet_time evs"

fun surviving_calls :: "nat \<Rightarrow> 'a call_event list \<Rightarrow> 'a list" where
  "surviving_calls wait [] = []"
| "surviving_calls wait (Invoke args # evs) =
     (if wait \<le> quiet_time evs then args # surviving_calls wait evs
      else surviving_calls wait evs)"
| "surviving_calls wait (Elapse d # evs) = surviving_calls wait evs"

text \<open>
  For the proofs: the table holds at most one timer and \<^verbatim>\<open>timeout\<close> names it; every timer
  in the table has time left; and the call of the first timer in the table survives when
  the quiet time ahead reaches what that timer has left.
\<close>

definition single_timer :: "'a debounce \<Rightarrow> bool" where
  "single_timer s =
     (case pending s of
        [] \<Rightarrow> True
      | t # ts \<Rightarrow> ts = [] \<and> timeout s = Some (timer_id t))"

definition armed :: "'a debounce \<Rightarrow> bool" where
  "armed s = list_all (\<lambda>t. 0 < time_left t) (pending s)"

definition pending_call :: "'a timer list \<Rightarrow> 'a call_event list \<Rightarrow> 'a list" where
  "pending_call tb evs =
     (case tb of
        [] \<Rightarrow> []
      | t # ts \<Rightarrow> if time_left t \<le> quiet_time evs then [timer_args t] else [])"

subsection \<open>The debounced resize listener\<close>

text \<open>
  \<^verbatim>\<open>window.addEventListener('resize', debounce(..., 250))\<close>: a resize event sets the width of
  the window and calls the debounced function; the callback, when it runs, reads the width
  the window has then.
\<close>

datatype resize_event = Resize int | Quiet nat

fun resize_step :: "unit debounce \<times> page \<Rightarrow> resize_event \<Rightarrow> unit debounce \<times> page" where
  "resize_step sw (Resize width) =
     (case sw of (s, st) \<Rightarrow> executedFunction 250 () (s, st\<lparr>innerWidth := width\<rparr>))"
| "resize_step sw (Quiet d) = elapse (\<lambda>_ st. snd (resize_listener st)) d sw"

definition resize_run :: "unit debounce \<times> page \<Rightarrow> resize_event list \<Rightarrow> unit debounce \<times> page" where
  "resize_run sw evs = foldl resize_step sw evs"

text \<open>
  A page that has the toggle and the container, and the closed menu on such a page.
\<close>

definition menu_present :: "page \<Rightarrow> bool" where
  "menu_present st = (menuToggle st \<noteq> None \<and> navLinksContainer st \<noteq> None)"

definition menu_closed :: "page \<Rightarrow> bool" where
  "menu_closed st =
     (map_option aria_expanded (menuToggle st) = Some (Some ''false'') \<and>
      map_option (contains ''active'') (navLinksContainer st) = Some False \<and>
      body_overflow st = [])"

section \<open>Example pages\<close>

definition demo_page :: page where
  "demo_page =
     \<lparr>navbar = Some 70,
      navLinks = [\<lparr>href = Some ''#home'', classList = [''nav-link'', ''active'']\<rparr>,
                  \<lparr>href = Some ''#about'', classList = [''nav-link'']\<rparr>],
      menuToggle = Some \<lparr>aria_expanded = Some ''true''\<rparr>,
      navLinksContainer = Some [''nav-links'', ''active''],
      sections = [\<lparr>offsetTop = 0, clientHeight = 700, sec_id = Some ''home''\<rparr>,
                  \<lparr>offsetTop = 600, clientHeight = 800, sec_id = Some ''about''\<rparr>],
      scrollY = 550,
      innerWidth = 600,
      innerHeight = 800,
      docClientHeight = 800,
      body_overflow = ''hidden'',
      elements = [\<lparr>rect_top = 100, rect_bottom = 300, el_classList = [''project-card''],
                   style_opacity = [], style_transform = [], style_transition = []\<rparr>,
                  \<lparr>rect_top = 900, rect_bottom = 1100, el_classList = [''skill-category''],
                   style_opacity = [], style_transform = [], style_transition = []\<rparr>],
      timers = [],
      setTimeout_log = [],
      scrollTo_calls = [],
      history = [],
      querySelector = (\<lambda>sel. if sel = ''#home'' then Inr (Some \<lparr>target_offsetTop = 0\<rparr>)
                             else if sel = ''#about'' then Inr (Some \<lparr>target_offsetTop = 600\<rparr>)
                             else if sel = ''#1'' then Inl SyntaxError
                             else Inr None)\<rparr>"

text \<open>
  The example page scrolled below its last section, and the same with a first link whose
  \<^verbatim>\<open>href\<close> is the bare \<^verbatim>\<open>#\<close>.
\<close>

definition footer_page :: page where
  "footer_page = demo_page\<lparr>scrollY := 2000\<rparr>"

definition placeholder_page :: page where
  "placeholder_page =
     demo_page\<lparr>navLinks := [\<lparr>href = Some ''#'', classList = [''nav-link'']\<rparr>,
                            \<lparr>href = Some ''#home'', classList = [''nav-link'', ''active'']\<rparr>],
                scrollY := 2000\<rparr>"

text \<open>
  The example page with a toggle that has no \<^verbatim>\<open>aria-expanded\<close> attribute, and with a
  collapsed menu on a body whose inline \<^verbatim>\<open>overflow\<close> is \<^verbatim>\<open>hidden\<close>.
\<close>

definition no_aria_page :: page where
  "no_aria_page =
     demo_page\<lparr>menuToggle := Some \<lparr>aria_expanded = None\<rparr>,
                navLinksContainer := Some [''nav-links''],
                body_overflow := []\<rparr>"

definition locked_page :: page where
  "locked_page =
     demo_page\<lparr>menuToggle := Some \<lparr>aria_expanded = Some ''false''\<rparr>,
                navLinksContainer := Some [''nav-links'']\<rparr>"

section \<open>Properties of the navigation highlight\<close>

lemma contains_remove: "contains c (remove d cl) = (c \<noteq> d \<and> contains c cl)"
  by (auto simp: contains_def remove_def)

lemma contains_add: "contains c (add d cl) = (c = d \<or> contains c cl)"
  by (auto simp: contains_def add_def)

lemma is_active_link_step: "is_active (link_step current link) = (href link = Some (hash_of current))"
  by (simp add: is_active_def link_step_def Let_def contains_add contains_remove)

lemma foldl_section_step_outside:
  "list_all (\<lambda>s. \<not> in_section y s) xs \<Longrightarrow> foldl (section_step y) c xs = c"
  by (induction xs arbitrary: c) (simp_all add: section_step_def)

lemma foldl_section_step_last:
  assumes "in_section y s" and "list_all (\<lambda>t. \<not> in_section y t) ys"
  shows "foldl (section_step y) c (xs @ s # ys) = sec_id s"
  using assms by (simp add: foldl_section_step_outside section_step_def)

lemma current_section_last:
  assumes "k < length (sections st)"
    and "in_section (scrollY st) (sections st ! k)"
    and "list_all (\<lambda>t. \<not> in_section (scrollY st) t) (drop (Suc k) (sections st))"
  shows "current_section st = sec_id (sections st ! k)"
proof -
  have "sections st = take k (sections st) @ sections st ! k # drop (Suc k) (sections st)"
    using assms(1) by (rule id_take_nth_drop)
  then have "current_section st =
      foldl (section_step (scrollY st)) (Some [])
        (take k (sections st) @ sections st ! k # drop (Suc k) (sections st))"
    unfolding current_section_def by simp
  with assms(2,3) show ?thesis
    by (simp only: foldl_section_step_last)
qed

lemma active_after_update:
  "map is_active (navLinks (updateActiveNavLink st)) =
     map (\<lambda>l. href l = Some (hash_of (current_section st))) (navLinks st)"
  by (simp add: updateActiveNavLink_def Let_def is_active_link_step)

text \<open>
  C1. When the scroll offset lies in the range of section \<open>k\<close> and in the range of no later
  section (so also when it lies in the range of section \<open>k\<close> alone), the loop leaves the id
  of section \<open>k\<close> in \<open>current\<close>: the last section in document order wins. The links marked
  active afterwards are those whose \<^verbatim>\<open>href\<close> is \<^verbatim>\<open>#\<close> followed by that id; when link \<open>j\<close> is
  the one link with that \<^verbatim>\<open>href\<close>, link \<open>j\<close> and no other link is active.
\<close>

theorem updateActiveNavLink_marks_last_section:
  assumes "k < length (sections st)"
    and "in_section (scrollY st) (sections st ! k)"
    and "list_all (\<lambda>t. \<not> in_section (scrollY st) t) (drop (Suc k) (sections st))"
    and "j < length (navLinks st)"
    and "href (navLinks st ! j) = Some (hash_of (sec_id (sections st ! k)))"
    and "\<And>i. i < length (navLinks st) \<Longrightarrow>
           href (navLinks st ! i) = Some (hash_of (sec_id (sections st ! k))) \<Longrightarrow> i = j"
  shows "current_section st = sec_id (sections st ! k) \<and>
         length (navLinks (updateActiveNavLink st)) = length (navLinks st) \<and>
         {i. i < length (navLinks st) \<and> is_active (navLinks (updateActiveNavLink st) ! i)} = {j}"
proof -
  have cur: "current_section st = sec_id (sections st ! k)"
    using assms(1-3) by (rule current_section_last)
  have len: "length (navLinks (updateActiveNavLink st)) = length (navLinks st)"
    by (simp add: updateActiveNavLink_def Let_def)
  have act: "is_active (navLinks (updateActiveNavLink st) ! i) =
             (href (navLinks st ! i) = Some (hash_of (sec_id (sections st ! k))))"
    if "i < length (navLinks st)" for i
    using that by (simp add: updateActiveNavLink_def Let_def is_active_link_step cur)
  have mem: "(i < length (navLinks st) \<and> is_active (navLinks (updateActiveNavLink st) ! i)) = (i = j)"
    for i
  proof
    assume "i < length (navLinks st) \<and> is_active (navLinks (updateActiveNavLink st) ! i)"
    then show "i = j" using act [of i] assms(6) [of i] by blast
  next
    assume "i = j"
    then show "i < length (navLinks st) \<and> is_active (navLinks (updateActiveNavLink st) ! i)"
      using act [of j] assms(4,5) by blast
  qed
  have "{i. i < length (navLinks st) \<and> is_active (navLinks (updateActiveNavLink st) ! i)} = {j}"
    unfolding mem by (rule singleton_conv)
  with cur len show ?thesis by (simp only: simp_thms)
qed

text \<open>
  On the example page the offset 550 lies in the ranges of both sections; the second one
  wins and its link alone is active, the mark on the first link being removed.
\<close>

theorem updateActiveNavLink_marks_last_section_witness:
  "current_section demo_page = Some ''about'' \<and>
   in_section (scrollY demo_page) (sections demo_page ! 0) \<and>
   in_section (scrollY demo_page) (sections demo_page ! 1) \<and>
   {i. i < length (navLinks demo_page) \<and>
       is_active (navLinks (updateActiveNavLink demo_page) ! i)} = {1}"
proof -
  have h1: "1 < length (sections demo_page)" by (simp add: demo_page_def)
  have h2: "in_section (scrollY demo_page) (sections demo_page ! 1)"
    by (simp add: demo_page_def in_section_def)
  have h0: "in_section (scrollY demo_page) (sections demo_page ! 0)"
    by (simp add: demo_page_def in_section_def)
  have h3: "list_all (\<lambda>t. \<not> in_section (scrollY demo_page) t) (drop (Suc 1) (sections demo_page))"
    by (simp add: demo_page_def)
  have h4: "1 < length (navLinks demo_page)" by (simp add: demo_page_def)
  have h5: "href (navLinks demo_page ! 1) = Some (hash_of (sec_id (sections demo_page ! 1)))"
    by (simp add: demo_page_def hash_of_def)
  have h6: "i = 1" if "i < length (navLinks demo_page)"
    and "href (navLinks demo_page ! i) = Some (hash_of (sec_id (sections demo_page ! 1)))" for i
    using that by (cases i) (auto simp: demo_page_def hash_of_def)
  have s: "sec_id (sections demo_page ! 1) = Some ''about''" by (simp add: demo_page_def)
  show ?thesis
    using updateActiveNavLink_marks_last_section [OF h1 h2 h3 h4 h5 h6] h0 h2 s by simp
qed

text \<open>
  C2 (as the code has it). When the scroll offset lies in the range of no section,
  \<open>current\<close> stays the empty string, the string compared with every \<^verbatim>\<open>href\<close> is the bare
  \<^verbatim>\<open>#\<close>, and a link is active afterwards exactly when its \<^verbatim>\<open>href\<close> is \<^verbatim>\<open>#\<close>: no link is
  active when no link has that \<^verbatim>\<open>href\<close>.
\<close>

theorem updateActiveNavLink_no_section:
  assumes "list_all (\<lambda>s. \<not> in_section (scrollY st) s) (sections st)"
  shows "current_section st = Some [] \<and>
         map is_active (navLinks (updateActiveNavLink st)) =
           map (\<lambda>link. href link = Some ''#'') (navLinks st)"
  using assms
  by (simp add: active_after_update current_section_def foldl_section_step_outside hash_of_def)

theorem updateActiveNavLink_no_section_witness:
  "list_all (\<lambda>s. \<not> in_section (scrollY footer_page) s) (sections footer_page) \<and>
   map is_active (navLinks (updateActiveNavLink footer_page)) = [False, False]"
proof -
  have h: "list_all (\<lambda>s. \<not> in_section (scrollY footer_page) s) (sections footer_page)"
    by (simp add: footer_page_def demo_page_def in_section_def)
  have l: "map (\<lambda>link. href link = Some ''#'') (navLinks footer_page) = [False, False]"
    by (simp add: footer_page_def demo_page_def)
  show ?thesis
    using updateActiveNavLink_no_section [OF h] h l by simp
qed

text \<open>
  C2 as stated fails: with a link whose \<^verbatim>\<open>href\<close> is the bare \<^verbatim>\<open>#\<close>, and the scroll offset in
  no section's range, that link is marked active.
\<close>

theorem updateActiveNavLink_no_section_counterexample:
  "list_all (\<lambda>s. \<not> in_section (scrollY placeholder_page) s) (sections placeholder_page) \<and>
   is_active (navLinks (updateActiveNavLink placeholder_page) ! 0)"
proof -
  have h: "list_all (\<lambda>s. \<not> in_section (scrollY placeholder_page) s) (sections placeholder_page)"
    by (simp add: placeholder_page_def demo_page_def in_section_def)
  have c: "current_section placeholder_page = Some []"
    using h by (simp add: current_section_def foldl_section_step_outside)
  have "is_active (navLinks (updateActiveNavLink placeholder_page) ! 0)"
    by (simp add: updateActiveNavLink_def Let_def c)
       (simp add: placeholder_page_def is_active_def link_step_def Let_def hash_of_def
          contains_def remove_def add_def)
  with h show ?thesis by simp
qed

section \<open>Properties of the mobile menu\<close>

lemma remove_remove: "remove c (remove c cl) = remove c cl"
  by (simp add: remove_def)

lemma set_toggle_toggle: "set (toggle c (toggle c cl)) = set cl"
  by (auto simp: toggle_def contains_def remove_def add_def)

lemma contains_toggle: "contains c (toggle c cl) = (\<not> contains c cl)"
  by (auto simp: toggle_def contains_def remove_def add_def)

lemma closeMobileMenu_present:
  assumes "menuToggle st = Some mt" and "navLinksContainer st = Some cl"
  shows "closeMobileMenu st =
    (Completed,
     st\<lparr>menuToggle := Some (mt\<lparr>aria_expanded := Some ''false''\<rparr>),
        navLinksContainer := Some (remove ''active'' cl),
        body_overflow := []\<rparr>)"
  using assms by (simp add: closeMobileMenu_def Let_def)

lemma toggleMobileMenu_present:
  assumes "menuToggle st = Some mt" and "navLinksContainer st = Some cl"
  shows "toggleMobileMenu st =
    (Completed,
     st\<lparr>menuToggle := Some (mt\<lparr>aria_expanded := Some (js_string_of_bool (\<not> is_expanded mt))\<rparr>),
        navLinksContainer := Some (toggle ''active'' cl),
        body_overflow := (if is_expanded mt then [] else ''hidden'')\<rparr>)"
  using assms by (simp add: toggleMobileMenu_def Let_def is_expanded_def)

lemma is_expanded_js_string [simp]:
  "is_expanded (mt\<lparr>aria_expanded := Some (js_string_of_bool b)\<rparr>) = b"
  by (simp add: is_expanded_def js_string_of_bool_def)

lemma menu_agrees_closeMobileMenu:
  "menu_agrees st \<Longrightarrow> menu_agrees (snd (closeMobileMenu st))"
  by (auto simp: menu_agrees_def closeMobileMenu_present is_expanded_def contains_remove
      split: option.splits)

lemma menu_agrees_toggleMobileMenu:
  "menu_agrees st \<Longrightarrow> menu_agrees (snd (toggleMobileMenu st))"
  by (auto simp: menu_agrees_def toggleMobileMenu_present contains_toggle
      split: option.splits)

lemma animateOnScroll_menu:
  "menuToggle (animateOnScroll st) = menuToggle st \<and>
   navLinksContainer (animateOnScroll st) = navLinksContainer st \<and>
   body_overflow (animateOnScroll st) = body_overflow st"
  by (simp add: animateOnScroll_def split_def Let_def)

lemma menu_agrees_cong:
  "menuToggle st' = menuToggle st \<Longrightarrow> navLinksContainer st' = navLinksContainer st \<Longrightarrow>
   menu_agrees st' = menu_agrees st"
  by (simp add: menu_agrees_def split: option.splits)

lemma menu_agrees_scroll_listener:
  "menu_agrees (scroll_listener st) = menu_agrees st"
  by (rule menu_agrees_cong)
     (simp_all add: scroll_listener_def animateOnScroll_menu updateActiveNavLink_def Let_def)

lemma menu_agrees_anchor_click:
  assumes "menu_agrees st"
  shows "menu_agrees (snd (snd (anchor_click hr st)))"
proof -
  obtain mt cl where p: "menuToggle st = Some mt" "navLinksContainer st = Some cl"
    using assms by (auto simp: menu_agrees_def split: option.splits)
  have c: "menu_agrees (snd (closeMobileMenu st))"
    using assms by (rule menu_agrees_closeMobileMenu)
  show ?thesis
    using assms c
    by (auto simp: anchor_click_def closeMobileMenu_present [OF p] menu_agrees_def Let_def
        split: sum.splits option.splits)
qed

lemma menu_agrees_perform:
  assumes "menu_agrees st"
  shows "menu_agrees (perform st op)"
proof (cases op)
  case CallToggleMobileMenu
  then show ?thesis using assms by (simp add: menu_agrees_toggleMobileMenu)
next
  case CallCloseMobileMenu
  then show ?thesis using assms by (simp add: menu_agrees_closeMobileMenu)
next
  case (DocumentClick e)
  then show ?thesis using assms menu_agrees_closeMobileMenu [OF assms]
    by (auto simp: document_click_def split: option.splits)
next
  case (KeyDown key)
  then show ?thesis using assms menu_agrees_closeMobileMenu [OF assms]
    by (auto simp: document_keydown_def split: option.splits)
next
  case ResizeFired
  then show ?thesis using assms menu_agrees_closeMobileMenu [OF assms]
    by (simp add: resize_listener_def)
next
  case ScrollFired
  then show ?thesis using assms by (simp add: menu_agrees_scroll_listener)
next
  case (AnchorClick hr)
  then show ?thesis using assms by (simp add: menu_agrees_anchor_click)
qed

text \<open>
  C3. On a page that has the toggle and the container, with \<^verbatim>\<open>aria-expanded\<close> being
  \<^verbatim>\<open>"true"\<close> exactly when the container carries the class \<^verbatim>\<open>active\<close>, the two still agree
  after any sequence of calls of \<^verbatim>\<open>toggleMobileMenu\<close> and \<^verbatim>\<open>closeMobileMenu\<close> and of runs of
  the click, keyboard, resize, scroll and anchor listeners.
\<close>

theorem menu_representations_agree:
  assumes "menu_agrees st"
  shows "menu_agrees (foldl perform st ops)"
  using assms
proof (induction ops arbitrary: st)
  case Nil
  then show ?case by simp
next
  case (Cons op ops)
  from Cons.prems have "menu_agrees (perform st op)" by (rule menu_agrees_perform)
  then have "menu_agrees (foldl perform (perform st op) ops)" by (rule Cons.IH)
  then show ?case by simp
qed

text \<open>The example page has its menu open, both representations saying so.\<close>

theorem menu_representations_agree_witness:
  "menu_agrees demo_page \<and>
   menu_agrees (foldl perform demo_page
     [CallToggleMobileMenu, CallToggleMobileMenu, KeyDown ''Escape'', CallToggleMobileMenu,
      AnchorClick ''#about'', ResizeFired, ScrollFired,
      DocumentClick \<lparr>target_in_container = False, target_in_toggle = False\<rparr>,
      CallCloseMobileMenu])"
proof -
  have h: "menu_agrees demo_page"
    by (simp add: menu_agrees_def demo_page_def is_expanded_def contains_def)
  show ?thesis
    using h menu_representations_agree [OF h] by (rule conjI)
qed

text \<open>
  C4. On every page a second \<^verbatim>\<open>closeMobileMenu\<close> ends as the first did and leaves the page as
  the first left it. When the toggle and the container exist, that page has
  \<^verbatim>\<open>aria-expanded\<close> \<^verbatim>\<open>"false"\<close>, no class \<^verbatim>\<open>active\<close> on the container and an empty
  \<^verbatim>\<open>overflow\<close> on the body.
\<close>

theorem closeMobileMenu_idempotent:
  "closeMobileMenu (snd (closeMobileMenu st)) = closeMobileMenu st \<and>
   (menuToggle st \<noteq> None \<and> navLinksContainer st \<noteq> None \<longrightarrow>
      map_option aria_expanded (menuToggle (snd (closeMobileMenu st))) = Some (Some ''false'') \<and>
      map_option (contains ''active'') (navLinksContainer (snd (closeMobileMenu st))) = Some False \<and>
      body_overflow (snd (closeMobileMenu st)) = [])"
proof (cases "menuToggle st")
  case None
  then show ?thesis by (simp add: closeMobileMenu_def)
next
  case mt: (Some mt)
  show ?thesis
  proof (cases "navLinksContainer st")
    case None
    with mt show ?thesis by (simp add: closeMobileMenu_def Let_def)
  next
    case (Some cl)
    with mt show ?thesis
      by (simp add: closeMobileMenu_present [OF mt Some] closeMobileMenu_def Let_def
          remove_remove contains_remove)
  qed
qed

text \<open>Closing the open menu of the example page, once or twice.\<close>

theorem closeMobileMenu_idempotent_witness:
  "menuToggle demo_page \<noteq> None \<and> navLinksContainer demo_page \<noteq> None \<and>
   closeMobileMenu (snd (closeMobileMenu demo_page)) = closeMobileMenu demo_page \<and>
   map_option aria_expanded (menuToggle (snd (closeMobileMenu demo_page))) = Some (Some ''false'') \<and>
   map_option (contains ''active'') (navLinksContainer (snd (closeMobileMenu demo_page))) = Some False \<and>
   body_overflow (snd (closeMobileMenu demo_page)) = [] \<and>
   body_overflow demo_page = ''hidden''"
proof -
  have h: "menuToggle demo_page \<noteq> None \<and> navLinksContainer demo_page \<noteq> None"
    by (simp add: demo_page_def)
  have o: "body_overflow demo_page = ''hidden''" by (simp add: demo_page_def)
  show ?thesis
    using closeMobileMenu_idempotent [of demo_page] h o by simp
qed

text \<open>
  C5 (as the code has it). On a page that has the toggle and the container, one
  \<^verbatim>\<open>toggleMobileMenu\<close> inverts the expanded boolean and a second one restores it, together
  with the class tokens of the container. The attribute itself is restored when it held
  \<^verbatim>\<open>"true"\<close> or \<^verbatim>\<open>"false"\<close>, and the \<^verbatim>\<open>overflow\<close> of the body when it was \<^verbatim>\<open>hidden\<close> for an
  expanded menu and empty for a collapsed one.
\<close>

theorem toggleMobileMenu_twice:
  assumes "menuToggle st = Some mt" and "navLinksContainer st = Some cl"
  shows "fst (toggleMobileMenu st) = Completed \<and>
         fst (toggleMobileMenu (snd (toggleMobileMenu st))) = Completed \<and>
         map_option is_expanded (menuToggle (snd (toggleMobileMenu st))) = Some (\<not> is_expanded mt) \<and>
         map_option is_expanded (menuToggle (snd (toggleMobileMenu (snd (toggleMobileMenu st))))) =
           Some (is_expanded mt) \<and>
         map_option set (navLinksContainer (snd (toggleMobileMenu (snd (toggleMobileMenu st))))) =
           Some (set cl) \<and>
         (aria_expanded mt = Some ''true'' \<or> aria_expanded mt = Some ''false'' \<longrightarrow>
            menuToggle (snd (toggleMobileMenu (snd (toggleMobileMenu st)))) = Some mt) \<and>
         (body_overflow st = (if is_expanded mt then ''hidden'' else []) \<longrightarrow>
            body_overflow (snd (toggleMobileMenu (snd (toggleMobileMenu st)))) = body_overflow st)"
proof -
  let ?st1 = "snd (toggleMobileMenu st)"
  have one: "toggleMobileMenu st =
    (Completed,
     st\<lparr>menuToggle := Some (mt\<lparr>aria_expanded := Some (js_string_of_bool (\<not> is_expanded mt))\<rparr>),
        navLinksContainer := Some (toggle ''active'' cl),
        body_overflow := (if is_expanded mt then [] else ''hidden'')\<rparr>)"
    using assms by (rule toggleMobileMenu_present)
  have m1: "menuToggle ?st1 =
      Some (mt\<lparr>aria_expanded := Some (js_string_of_bool (\<not> is_expanded mt))\<rparr>)"
    and c1: "navLinksContainer ?st1 = Some (toggle ''active'' cl)"
    by (simp_all add: one)
  have two: "toggleMobileMenu ?st1 =
    (Completed,
     ?st1\<lparr>menuToggle := Some (mt\<lparr>aria_expanded := Some (js_string_of_bool (is_expanded mt))\<rparr>),
        navLinksContainer := Some (toggle ''active'' (toggle ''active'' cl)),
        body_overflow := (if is_expanded mt then ''hidden'' else [])\<rparr>)"
    using toggleMobileMenu_present [OF m1 c1] by simp
  have attr: "mt\<lparr>aria_expanded := Some (js_string_of_bool (is_expanded mt))\<rparr> = mt"
    if "aria_expanded mt = Some ''true'' \<or> aria_expanded mt = Some ''false''"
    using that by (auto simp: is_expanded_def js_string_of_bool_def)
  show ?thesis
    unfolding two by (simp add: one set_toggle_toggle attr)
qed

text \<open>The open menu of the example page, toggled twice.\<close>

theorem toggleMobileMenu_twice_witness:
  "menuToggle demo_page = Some \<lparr>aria_expanded = Some ''true''\<rparr> \<and>
   navLinksContainer demo_page = Some [''nav-links'', ''active''] \<and>
   body_overflow demo_page = ''hidden'' \<and>
   map_option is_expanded (menuToggle (snd (toggleMobileMenu demo_page))) = Some False \<and>
   menuToggle (snd (toggleMobileMenu (snd (toggleMobileMenu demo_page)))) =
     Some \<lparr>aria_expanded = Some ''true''\<rparr> \<and>
   map_option set (navLinksContainer (snd (toggleMobileMenu (snd (toggleMobileMenu demo_page))))) =
     Some {''nav-links'', ''active''} \<and>
   body_overflow (snd (toggleMobileMenu (snd (toggleMobileMenu demo_page)))) = ''hidden''"
proof -
  have h1: "menuToggle demo_page = Some \<lparr>aria_expanded = Some ''true''\<rparr>"
    and h2: "navLinksContainer demo_page = Some [''nav-links'', ''active'']"
    and h3: "body_overflow demo_page = ''hidden''"
    by (simp_all add: demo_page_def)
  have e: "is_expanded \<lparr>aria_expanded = Some ''true''\<rparr>" by (simp add: is_expanded_def)
  show ?thesis
    using toggleMobileMenu_twice [OF h1 h2] h1 h2 h3 e by simp
qed

text \<open>
  C5 as stated, for every starting state, fails: a collapsed menu on a body whose
  \<^verbatim>\<open>overflow\<close> is \<^verbatim>\<open>hidden\<close> ends with an empty \<^verbatim>\<open>overflow\<close>, and a toggle without the
  attribute ends with \<^verbatim>\<open>aria-expanded="false"\<close>.
\<close>

theorem toggleMobileMenu_twice_counterexample:
  "body_overflow locked_page = ''hidden'' \<and>
   body_overflow (snd (toggleMobileMenu (snd (toggleMobileMenu locked_page)))) = [] \<and>
   menuToggle no_aria_page = Some \<lparr>aria_expanded = None\<rparr> \<and>
   menuToggle (snd (toggleMobileMenu (snd (toggleMobileMenu no_aria_page)))) =
     Some \<lparr>aria_expanded = Some ''false''\<rparr>"
  by (simp add: locked_page_def no_aria_page_def demo_page_def toggleMobileMenu_def Let_def
      js_string_of_bool_def toggle_def contains_def add_def remove_def)

section \<open>Properties of the reveal animation\<close>

lemma animate_from_fst:
  "fst (animate_from st i es) =
     map (\<lambda>e. if should_animate st e then mark_animated e else e) es"
  by (induction es arbitrary: i) (simp_all add: split_def Let_def)

lemma animate_from_snd_count:
  "count_list (snd (animate_from st i es)) j =
     (if i \<le> j \<and> j < i + length es \<and> should_animate st (es ! (j - i)) then 1 else 0)"
proof (induction es arbitrary: i)
  case Nil
  then show ?case by simp
next
  case (Cons e es)
  show ?case
  proof (cases "j = i")
    case True
    then show ?thesis using Cons.IH [of "Suc i"] by (simp add: split_def Let_def)
  next
    case False
    have "(e # es) ! (j - i) = es ! (j - Suc i)" if "i \<le> j"
    proof -
      from that False have "j - i = Suc (j - Suc i)" by arith
      then show ?thesis by simp
    qed
    with False show ?thesis
      by (auto simp: split_def Let_def Cons.IH)
  qed
qed

lemma elements_animateOnScroll:
  "elements (animateOnScroll st) =
     map (\<lambda>e. if should_animate st e then mark_animated e else e) (elements st)"
  by (simp add: animateOnScroll_def split_def Let_def animate_from_fst)

lemma log_animateOnScroll:
  "times_started (animateOnScroll st) j =
     times_started st j +
       (if j < length (elements st) \<and> should_animate st (elements st ! j) then 1 else 0)"
  by (simp add: times_started_def animateOnScroll_def split_def Let_def animate_from_snd_count)

lemma timers_animateOnScroll:
  "count_list (timers (animateOnScroll st)) j =
     count_list (timers st) j +
       (if j < length (elements st) \<and> should_animate st (elements st ! j) then 1 else 0)"
  by (simp add: animateOnScroll_def split_def Let_def animate_from_snd_count)

lemma marker_blocks: "has_marker st i \<Longrightarrow> \<not> should_animate st (elements st ! i)"
  by (simp add: has_marker_def should_animate_def)

lemma has_marker_mark: "contains ''animated'' (el_classList (mark_animated e))"
  by (simp add: mark_animated_def contains_add)

lemma has_marker_animateOnScroll:
  "has_marker (animateOnScroll st) i =
     (has_marker st i \<or> (i < length (elements st) \<and> should_animate st (elements st ! i)))"
  by (auto simp: has_marker_def elements_animateOnScroll has_marker_mark should_animate_def
      split: if_splits)

lemma has_marker_fire_timer: "has_marker (fire_timer st) i = has_marker st i"
  by (auto simp: has_marker_def fire_timer_def reveal_def nth_list_update split: list.splits)

lemma has_marker_scrolled: "has_marker (scrolled dy st) i = has_marker st i"
  by (auto simp: has_marker_def scrolled_def)

lemma times_started_fire_timer: "times_started (fire_timer st) i = times_started st i"
  by (simp add: times_started_def fire_timer_def split: list.splits)

lemma times_started_scrolled: "times_started (scrolled dy st) i = times_started st i"
  by (simp add: times_started_def scrolled_def)

lemma budget_step: "budget (anim_step st ev) i \<le> budget st i"
  by (cases ev)
     (auto simp: budget_def has_marker_animateOnScroll log_animateOnScroll marker_blocks
        has_marker_fire_timer has_marker_scrolled times_started_fire_timer times_started_scrolled)

lemma times_started_mono_step: "times_started st i \<le> times_started (anim_step st ev) i"
  by (cases ev)
     (simp_all add: log_animateOnScroll times_started_fire_timer times_started_scrolled)

lemma has_marker_step: "has_marker st i \<Longrightarrow> has_marker (anim_step st ev) i"
  by (cases ev) (simp_all add: has_marker_animateOnScroll has_marker_fire_timer has_marker_scrolled)

lemma budget_run: "budget (anim_run st evs) i \<le> budget st i"
  unfolding anim_run_def
proof (induction evs arbitrary: st)
  case Nil
  show ?case by simp
next
  case (Cons ev evs)
  have "budget (foldl anim_step (anim_step st ev) evs) i \<le> budget (anim_step st ev) i"
    by (rule Cons.IH)
  also have "\<dots> \<le> budget st i" by (rule budget_step)
  finally show ?case by simp
qed

lemma times_started_mono_run: "times_started st i \<le> times_started (anim_run st evs) i"
  unfolding anim_run_def
proof (induction evs arbitrary: st)
  case Nil
  show ?case by simp
next
  case (Cons ev evs)
  have "times_started st i \<le> times_started (anim_step st ev) i"
    by (rule times_started_mono_step)
  also have "\<dots> \<le> times_started (foldl anim_step (anim_step st ev) evs) i"
    by (rule Cons.IH)
  finally show ?case by simp
qed

lemma has_marker_run: "has_marker st i \<Longrightarrow> has_marker (anim_run st evs) i"
  unfolding anim_run_def
  by (induction evs arbitrary: st) (simp_all add: has_marker_step)

lemma unchanged_if_marked:
  "has_marker st i \<Longrightarrow> elements (animateOnScroll st) ! i = elements st ! i"
  using marker_blocks [of st i]
  by (simp add: elements_animateOnScroll has_marker_def)

lemma styles_reveal: "styles (reveal e) = styles (reveal e')"
  by (simp add: styles_def reveal_def)

lemma styles_step:
  assumes "has_marker st i"
  shows "styles (elements (anim_step st ev) ! i) = styles (elements st ! i) \<or>
         styles (elements (anim_step st ev) ! i) = styles (reveal (elements st ! i))"
proof (cases ev)
  case AnimateOnScroll
  then show ?thesis using assms by (simp add: unchanged_if_marked)
next
  case TimerFires
  then show ?thesis
    by (auto simp: fire_timer_def nth_list_update split: list.splits)
next
  case (Scrolled dy)
  then show ?thesis using assms by (simp add: scrolled_def has_marker_def styles_def)
qed

lemma styles_run:
  assumes "has_marker st i"
  shows "styles (elements (anim_run st evs) ! i) = styles (elements st ! i) \<or>
         styles (elements (anim_run st evs) ! i) = styles (reveal (elements st ! i))"
  using assms unfolding anim_run_def
proof (induction evs arbitrary: st)
  case Nil
  then show ?case by simp
next
  case (Cons ev evs)
  let ?st1 = "anim_step st ev"
  have m: "has_marker ?st1 i" using Cons.prems by (rule has_marker_step)
  have r: "styles (reveal (elements ?st1 ! i)) = styles (reveal (elements st ! i))"
    by (rule styles_reveal)
  from Cons.IH [OF m] styles_step [OF Cons.prems, of ev] r show ?case
    by auto
qed

text \<open>
  C6. Over any interleaving of calls of \<^verbatim>\<open>animateOnScroll\<close>, scrolling and firing of pending
  callbacks, at most one more callback is ever scheduled for an element. A call that
  schedules a callback for an element returns with the marker already on it. For an
  element that carries the marker, a call leaves the element as it is and schedules
  nothing for it; the marker stays, no callback is scheduled for it in any continuation,
  and its styles are those it had or those the pending callback writes.
\<close>

theorem never_animated_twice:
  "times_started (anim_run st evs) i \<le> Suc (times_started st i) \<and>
   (times_started st i < times_started (animateOnScroll st) i \<longrightarrow>
      has_marker (animateOnScroll st) i) \<and>
   (has_marker st i \<longrightarrow>
      elements (animateOnScroll st) ! i = elements st ! i \<and>
      count_list (timers (animateOnScroll st)) i = count_list (timers st) i \<and>
      has_marker (anim_run st evs) i \<and>
      times_started (anim_run st evs) i = times_started st i \<and>
      (styles (elements (anim_run st evs) ! i) = styles (elements st ! i) \<or>
       styles (elements (anim_run st evs) ! i) = styles (reveal (elements st ! i))))"
proof (intro conjI impI)
  have "times_started (anim_run st evs) i \<le> budget (anim_run st evs) i"
    by (simp add: budget_def)
  also have "\<dots> \<le> budget st i" by (rule budget_run)
  also have "\<dots> \<le> Suc (times_started st i)" by (simp add: budget_def)
  finally show "times_started (anim_run st evs) i \<le> Suc (times_started st i)" .
next
  assume "times_started st i < times_started (animateOnScroll st) i"
  then show "has_marker (animateOnScroll st) i"
    by (simp add: log_animateOnScroll has_marker_animateOnScroll split: if_splits)
next
  assume m: "has_marker st i"
  show "elements (animateOnScroll st) ! i = elements st ! i"
    using m by (rule unchanged_if_marked)
  show "count_list (timers (animateOnScroll st)) i = count_list (timers st) i"
    using m by (simp add: timers_animateOnScroll marker_blocks)
  show "has_marker (anim_run st evs) i" using m by (rule has_marker_run)
  have "times_started (anim_run st evs) i \<le> budget (anim_run st evs) i"
    by (simp add: budget_def)
  also have "\<dots> \<le> budget st i" by (rule budget_run)
  also have "\<dots> = times_started st i" using m by (simp add: budget_def)
  finally show "times_started (anim_run st evs) i = times_started st i"
    using times_started_mono_run [of st i evs] by simp
  show "styles (elements (anim_run st evs) ! i) = styles (elements st ! i) \<or>
        styles (elements (anim_run st evs) ! i) = styles (reveal (elements st ! i))"
    using m by (rule styles_run)
qed

lemma bit_length_800: "bit_length 2882303761517117600 = 62"
  by (simp add: bit_length.simps)

lemma times_0_8_800: "times_0_8 800 = 640"
  by (simp add: times_0_8_def round_shift_def Let_def bit_length_800)

text \<open>
  The rounding is that of the script: for a window 768 high the exact product lies halfway
  between two doubles and rounds to the one above 614.4, so an element whose top is that
  double is in view, which the exact fraction \<open>4/5\<close> would deny.
\<close>

lemma bit_length_768: "bit_length 2767011611056432896 = 62"
  by (simp add: bit_length.simps)

lemma times_0_8_768: "times_0_8 768 = 5404319552844596 / 2 ^ 43"
  by (simp add: times_0_8_def round_shift_def Let_def bit_length_768)

lemma isInViewport_rounds_like_the_script:
  "isInViewport (demo_page\<lparr>innerHeight := 768\<rparr>)
     \<lparr>rect_top = 5404319552844596 / 2 ^ 43, rect_bottom = 700, el_classList = [],
      style_opacity = [], style_transform = [], style_transition = []\<rparr> \<and>
   \<not> (5404319552844596 / 2 ^ 43 \<le> (768::rat) * (4 / 5))"
  by (simp add: isInViewport_def times_0_8_768)

lemma demo_animate:
  "animateOnScroll demo_page =
     demo_page\<lparr>elements :=
        [\<lparr>rect_top = 100, rect_bottom = 300, el_classList = [''project-card'', ''animated''],
          style_opacity = ''0'', style_transform = ''translateY(20px)'', style_transition = []\<rparr>,
         \<lparr>rect_top = 900, rect_bottom = 1100, el_classList = [''skill-category''],
          style_opacity = [], style_transform = [], style_transition = []\<rparr>],
        timers := [0], setTimeout_log := [0]\<rparr>"
  by (simp add: animateOnScroll_def demo_page_def should_animate_def isInViewport_def
      matches_reveal_selector_def contains_def mark_animated_def add_def times_0_8_800)

text \<open>
  The first card of the example page is in view and unmarked: the first call marks it and
  schedules its callback, and calls arriving before and after that callback fires schedule
  no second one.
\<close>

theorem never_animated_twice_witness:
  "\<not> has_marker demo_page 0 \<and>
   times_started demo_page 0 < times_started (animateOnScroll demo_page) 0 \<and>
   has_marker (animateOnScroll demo_page) 0 \<and>
   times_started (animateOnScroll demo_page) 0 = 1 \<and>
   elements (animateOnScroll (animateOnScroll demo_page)) ! 0 =
     elements (animateOnScroll demo_page) ! 0 \<and>
   times_started
     (anim_run (animateOnScroll demo_page)
        [AnimateOnScroll, Scrolled 50, AnimateOnScroll, TimerFires, AnimateOnScroll]) 0 = 1"
proof -
  have a: "\<not> has_marker demo_page 0"
    by (simp add: has_marker_def demo_page_def contains_def)
  have b: "times_started demo_page 0 = 0"
    by (simp add: times_started_def demo_page_def)
  have c: "times_started (animateOnScroll demo_page) 0 = 1"
    by (simp add: times_started_def demo_animate)
  have d: "has_marker (animateOnScroll demo_page) 0"
    using never_animated_twice [of demo_page "[]" 0] b c by simp
  show ?thesis
    using never_animated_twice
      [of "animateOnScroll demo_page"
          "[AnimateOnScroll, Scrolled 50, AnimateOnScroll, TimerFires, AnimateOnScroll]" 0]
      a b c d
    by simp
qed

section \<open>Properties of smooth scrolling\<close>

text \<open>
  C7. A click on an anchor whose \<^verbatim>\<open>href\<close> is the bare \<^verbatim>\<open>#\<close> returns at once: the listener
  does not call \<^verbatim>\<open>preventDefault\<close> and writes nothing, so it asks for no scroll and pushes
  no URL. For any other \<^verbatim>\<open>href\<close> whose target exists, on a page that has the navbar, the
  toggle and the container, the listener prevents the default, asks once for a scroll to
  \<^verbatim>\<open>targetElement.offsetTop\<close> minus the height of the navbar, and pushes the \<^verbatim>\<open>href\<close> as the
  new URL unless the \<^verbatim>\<open>href\<close> is \<^verbatim>\<open>#home\<close>, for which it pushes nothing.
\<close>

theorem anchor_click_effects:
  "anchor_click ''#'' st = (False, Completed, st) \<and>
   (hr \<noteq> ''#'' \<and> querySelector st hr = Inr (Some targetElement) \<and>
    menuToggle st = Some mt \<and> navLinksContainer st = Some cl \<and>
    navbar st = Some headerHeight \<longrightarrow>
      fst (anchor_click hr st) \<and>
      fst (snd (anchor_click hr st)) = Completed \<and>
      scrollTo_calls (snd (snd (anchor_click hr st))) =
        scrollTo_calls st @ [target_offsetTop targetElement - headerHeight] \<and>
      history (snd (snd (anchor_click hr st))) =
        (if hr = ''#home'' then history st else history st @ [hr]))"
proof (intro conjI impI)
  show "anchor_click ''#'' st = (False, Completed, st)"
    by (simp add: anchor_click_def)
next
  assume h: "hr \<noteq> ''#'' \<and> querySelector st hr = Inr (Some targetElement) \<and>
    menuToggle st = Some mt \<and> navLinksContainer st = Some cl \<and>
    navbar st = Some headerHeight"
  then have c: "closeMobileMenu st =
    (Completed,
     st\<lparr>menuToggle := Some (mt\<lparr>aria_expanded := Some ''false''\<rparr>),
        navLinksContainer := Some (remove ''active'' cl),
        body_overflow := []\<rparr>)"
    by (simp add: closeMobileMenu_present)
  show "fst (anchor_click hr st)"
    using h by (simp add: anchor_click_def c Let_def)
  show "fst (snd (anchor_click hr st)) = Completed"
    using h by (simp add: anchor_click_def c Let_def)
  show "scrollTo_calls (snd (snd (anchor_click hr st))) =
        scrollTo_calls st @ [target_offsetTop targetElement - headerHeight]"
    using h by (simp add: anchor_click_def c Let_def)
  show "history (snd (snd (anchor_click hr st))) =
        (if hr = ''#home'' then history st else history st @ [hr])"
    using h by (simp add: anchor_click_def c Let_def)
qed

text \<open>
  On the example page the navbar is 70 pixels high, \<^verbatim>\<open>#home\<close> is at 0 and \<^verbatim>\<open>#about\<close> at 600.
\<close>

theorem anchor_click_effects_witness:
  "anchor_click ''#'' demo_page = (False, Completed, demo_page) \<and>
   fst (anchor_click ''#home'' demo_page) \<and>
   scrollTo_calls (snd (snd (anchor_click ''#home'' demo_page))) = [- 70] \<and>
   history (snd (snd (anchor_click ''#home'' demo_page))) = [] \<and>
   fst (anchor_click ''#about'' demo_page) \<and>
   scrollTo_calls (snd (snd (anchor_click ''#about'' demo_page))) = [530] \<and>
   history (snd (snd (anchor_click ''#about'' demo_page))) = [''#about'']"
proof -
  have q: "querySelector demo_page ''#home'' = Inr (Some \<lparr>target_offsetTop = 0\<rparr>)"
    "querySelector demo_page ''#about'' = Inr (Some \<lparr>target_offsetTop = 600\<rparr>)"
    by (simp_all add: demo_page_def)
  have p: "menuToggle demo_page = Some \<lparr>aria_expanded = Some ''true''\<rparr>"
    "navLinksContainer demo_page = Some [''nav-links'', ''active'']"
    "navbar demo_page = Some 70" "scrollTo_calls demo_page = []" "history demo_page = []"
    by (simp_all add: demo_page_def)
  show ?thesis
    using
      anchor_click_effects [of demo_page "''#home''" "\<lparr>target_offsetTop = 0\<rparr>"
        "\<lparr>aria_expanded = Some ''true''\<rparr>" "[''nav-links'', ''active'']" 70]
      anchor_click_effects [of demo_page "''#about''" "\<lparr>target_offsetTop = 600\<rparr>"
        "\<lparr>aria_expanded = Some ''true''\<rparr>" "[''nav-links'', ''active'']" 70]
      q p
    by simp
qed

text \<open>
  C10. A click on an anchor whose \<^verbatim>\<open>href\<close> is not the bare \<^verbatim>\<open>#\<close> and whose target
  \<^verbatim>\<open>querySelector\<close> does not find prevents the default and leaves the page as it was: no
  scroll is asked for, no URL pushed, and the menu is not written, \<^verbatim>\<open>closeMobileMenu\<close> being
  called in the branch of an existing target only. The page is left as it was also when
  \<^verbatim>\<open>querySelector\<close> throws on an \<^verbatim>\<open>href\<close> that is no selector; the listener then ends by that
  exception.
\<close>

theorem anchor_click_missing_target:
  "(hr \<noteq> ''#'' \<and> querySelector st hr = Inr None \<longrightarrow>
      anchor_click hr st = (True, Completed, st)) \<and>
   (hr \<noteq> ''#'' \<and> querySelector st hr = Inl err \<longrightarrow>
      anchor_click hr st = (True, Threw err, st))"
  by (simp add: anchor_click_def)

text \<open>
  The example page has no element \<^verbatim>\<open>#contact\<close>, and \<^verbatim>\<open>#1\<close> is no selector.
\<close>

theorem anchor_click_missing_target_witness:
  "querySelector demo_page ''#contact'' = Inr None \<and>
   anchor_click ''#contact'' demo_page = (True, Completed, demo_page) \<and>
   querySelector demo_page ''#1'' = Inl SyntaxError \<and>
   anchor_click ''#1'' demo_page = (True, Threw SyntaxError, demo_page)"
proof -
  have q: "querySelector demo_page ''#contact'' = Inr None"
    "querySelector demo_page ''#1'' = Inl SyntaxError"
    by (simp_all add: demo_page_def)
  show ?thesis
    using anchor_click_missing_target [of "''#contact''" demo_page SyntaxError]
      anchor_click_missing_target [of "''#1''" demo_page SyntaxError] q
    by simp
qed

section \<open>Properties of debounce\<close>

lemma clearTimeout_Nil: "clearTimeout tid [] = []"
  by (simp add: clearTimeout_def split: option.splits)

lemma clearTimeout_single: "clearTimeout (Some (timer_id t)) [t] = []"
  by (simp add: clearTimeout_def)

lemma single_timer_cases:
  assumes "single_timer s"
  obtains "pending s = []" | t where "pending s = [t]" and "timeout s = Some (timer_id t)"
  using assms by (auto simp: single_timer_def split: list.splits)

lemma executedFunction_single:
  assumes "single_timer s"
  shows "pending (fst (executedFunction wait args (s, w))) =
           [\<lparr>timer_id = next_id s, time_left = wait, timer_args = args\<rparr>] \<and>
         timeout (fst (executedFunction wait args (s, w))) = Some (next_id s) \<and>
         snd (executedFunction wait args (s, w)) = w"
  using assms
  by (rule single_timer_cases)
     (simp_all add: executedFunction_def setTimeout_def clearTimeout_Nil clearTimeout_single)

lemma elapse_empty:
  assumes "pending s = []"
  shows "pending (fst (elapse func d (s, w))) = [] \<and>
         timeout (fst (elapse func d (s, w))) = timeout s \<and>
         snd (elapse func d (s, w)) = w"
  using assms by (simp add: elapse_def)

lemma elapse_fires:
  assumes "pending s = [t]" and "timeout s = Some (timer_id t)" and "time_left t \<le> d"
  shows "pending (fst (elapse func d (s, w))) = [] \<and>
         snd (elapse func d (s, w)) = func (timer_args t) w"
  using assms by (simp add: elapse_def run_timer_def later_def clearTimeout_Nil)

lemma elapse_waits:
  assumes "pending s = [t]" and "\<not> time_left t \<le> d"
  shows "pending (fst (elapse func d (s, w))) = [t\<lparr>time_left := time_left t - d\<rparr>] \<and>
         timeout (fst (elapse func d (s, w))) = timeout s \<and>
         snd (elapse func d (s, w)) = w"
  using assms by (simp add: elapse_def)

lemma single_timer_step:
  assumes "single_timer s"
  shows "single_timer (fst (debounced_step func wait (s, w) ev))"
proof (cases ev)
  case (Invoke args)
  then show ?thesis
    using executedFunction_single [OF assms, of wait args w] by (simp add: single_timer_def)
next
  case (Elapse d)
  from assms show ?thesis
  proof (rule single_timer_cases)
    assume "pending s = []"
    then show ?thesis using Elapse elapse_empty [of s func d w] by (simp add: single_timer_def)
  next
    fix t assume t: "pending s = [t]" "timeout s = Some (timer_id t)"
    show ?thesis
    proof (cases "time_left t \<le> d")
      case True
      then show ?thesis using Elapse elapse_fires [OF t True, of func w]
        by (simp add: single_timer_def)
    next
      case False
      then show ?thesis using Elapse elapse_waits [OF t(1) False, of func w] t(2)
        by (simp add: single_timer_def)
    qed
  qed
qed

lemma single_timer_run:
  "single_timer s \<Longrightarrow> single_timer (fst (debounced_run func wait (s, w) evs))"
  unfolding debounced_run_def
proof (induction evs arbitrary: s w)
  case Nil
  then show ?case by simp
next
  case (Cons ev evs)
  obtain s' w' where st: "debounced_step func wait (s, w) ev = (s', w')"
    by (cases "debounced_step func wait (s, w) ev")
  have "single_timer s'"
    using single_timer_step [OF Cons.prems, of func wait w ev] st by simp
  then have "single_timer (fst (foldl (debounced_step func wait) (s', w') evs))"
    by (rule Cons.IH)
  then show ?case by (simp add: st)
qed

lemma debounced_run_general:
  assumes "0 < wait"
  shows "single_timer s \<Longrightarrow> armed s \<Longrightarrow>
         snd (debounced_run func wait (s, w) evs) =
         foldl (\<lambda>w a. func a w) w (pending_call (pending s) evs @ surviving_calls wait evs)"
  unfolding debounced_run_def
proof (induction evs arbitrary: s w)
  case Nil
  then show ?case
    by (auto simp: pending_call_def armed_def split: list.splits)
next
  case (Cons ev evs)
  obtain s' w' where st: "debounced_step func wait (s, w) ev = (s', w')"
    by (cases "debounced_step func wait (s, w) ev")
  have s': "single_timer s'"
    using single_timer_step [OF Cons.prems(1), of func wait w ev] st by simp
  show ?case
  proof (cases ev)
    case (Invoke args)
    have e: "pending s' = [\<lparr>timer_id = next_id s, time_left = wait, timer_args = args\<rparr>]" "w' = w"
      using executedFunction_single [OF Cons.prems(1), of wait args w] st Invoke by simp_all
    have a: "armed s'" using e assms by (simp add: armed_def)
    have p: "pending_call (pending s) (ev # evs) = []"
      using Invoke Cons.prems(2) by (auto simp: pending_call_def armed_def split: list.splits)
    have "snd (foldl (debounced_step func wait) (s', w') evs) =
          foldl (\<lambda>w a. func a w) w' (pending_call (pending s') evs @ surviving_calls wait evs)"
      using s' a by (rule Cons.IH)
    then show ?thesis
      using Invoke st e p by (simp add: pending_call_def)
  next
    case (Elapse d)
    from Cons.prems(1) show ?thesis
    proof (rule single_timer_cases)
      assume n: "pending s = []"
      have e: "pending s' = []" "w' = w"
        using elapse_empty [OF n, of func d w] st Elapse by simp_all
      have a: "armed s'" using e by (simp add: armed_def)
      have "snd (foldl (debounced_step func wait) (s', w') evs) =
            foldl (\<lambda>w a. func a w) w' (pending_call (pending s') evs @ surviving_calls wait evs)"
        using s' a by (rule Cons.IH)
      then show ?thesis
        using Elapse st e n by (simp add: pending_call_def)
    next
      fix t assume t: "pending s = [t]" "timeout s = Some (timer_id t)"
      have r: "0 < time_left t" using Cons.prems(2) t by (simp add: armed_def)
      show ?thesis
      proof (cases "time_left t \<le> d")
        case True
        have e: "pending s' = []" "w' = func (timer_args t) w"
          using elapse_fires [OF t True, of func w] st Elapse by simp_all
        have a: "armed s'" using e by (simp add: armed_def)
        have "snd (foldl (debounced_step func wait) (s', w') evs) =
              foldl (\<lambda>w a. func a w) w' (pending_call (pending s') evs @ surviving_calls wait evs)"
          using s' a by (rule Cons.IH)
        then show ?thesis
          using Elapse st e t True by (simp add: pending_call_def)
      next
        case False
        have e: "pending s' = [t\<lparr>time_left := time_left t - d\<rparr>]" "w' = w"
          using elapse_waits [OF t(1) False, of func w] st Elapse by simp_all
        have a: "armed s'" using e False by (simp add: armed_def)
        have q: "(time_left t - d \<le> quiet_time evs) = (time_left t \<le> d + quiet_time evs)"
          using False by arith
        have "snd (foldl (debounced_step func wait) (s', w') evs) =
              foldl (\<lambda>w a. func a w) w' (pending_call (pending s') evs @ surviving_calls wait evs)"
          using s' a by (rule Cons.IH)
        then show ?thesis
          using Elapse st e t False q by (simp add: pending_call_def)
      qed
    qed
  qed
qed

lemma new_debounce_single: "single_timer (new_debounce n)"
  by (simp add: new_debounce_def single_timer_def)

lemma new_debounce_armed: "armed (new_debounce n)"
  by (simp add: new_debounce_def armed_def)

text \<open>
  C9. From the closure as \<^verbatim>\<open>debounce\<close> returns it, over any sequence of calls and pauses:
  after a call the timer table holds one timer only, that of this call, with the full wait
  and the arguments of this call, whatever was pending before having been cleared; and
  \<^verbatim>\<open>func\<close> has run exactly on the surviving calls, in order: once for each call that was
  followed by a pause of at least the wait before the next call, with the arguments of that
  call, and for no other.
\<close>

theorem debounce_trailing_edge:
  "map (\<lambda>t. (time_left t, timer_args t))
     (pending (fst (debounced_run func wait (new_debounce n, w) (evs @ [Invoke args])))) =
     [(wait, args)] \<and>
   (0 < wait \<longrightarrow>
      snd (debounced_run func wait (new_debounce n, w) evs) =
        foldl (\<lambda>w a. func a w) w (surviving_calls wait evs))"
proof (intro conjI impI)
  obtain s' w' where r: "debounced_run func wait (new_debounce n, w) evs = (s', w')"
    by (cases "debounced_run func wait (new_debounce n, w) evs")
  have "single_timer (fst (debounced_run func wait (new_debounce n, w) evs))"
    using new_debounce_single by (rule single_timer_run)
  then have s': "single_timer s'" by (simp add: r)
  have "debounced_run func wait (new_debounce n, w) (evs @ [Invoke args]) =
        executedFunction wait args (s', w')"
    using r by (simp add: debounced_run_def)
  then show "map (\<lambda>t. (time_left t, timer_args t))
     (pending (fst (debounced_run func wait (new_debounce n, w) (evs @ [Invoke args])))) =
     [(wait, args)]"
    using executedFunction_single [OF s', of wait args w'] by simp
next
  assume "0 < wait"
  then have "snd (debounced_run func wait (new_debounce n, w) evs) =
     foldl (\<lambda>w a. func a w) w
       (pending_call (pending (new_debounce n)) evs @ surviving_calls wait evs)"
    by (rule debounced_run_general [OF _ new_debounce_single new_debounce_armed])
  then show "snd (debounced_run func wait (new_debounce n, w) evs) =
        foldl (\<lambda>w a. func a w) w (surviving_calls wait evs)"
    by (simp add: pending_call_def new_debounce_def)
qed

text \<open>
  Four calls with a wait of 100: only the third is followed by 100 quiet milliseconds
  (60 and 40), so \<^verbatim>\<open>func\<close> runs once, with the arguments of the third call.
\<close>

theorem debounce_trailing_edge_witness:
  "(0::nat) < 100 \<and>
   map (\<lambda>t. (time_left t, timer_args t))
     (pending (fst (debounced_run (\<lambda>a w. w @ [a]) 100 (new_debounce 0, [])
        ([Invoke (1::nat), Elapse 40] @ [Invoke 2])))) = [(100, 2)] \<and>
   surviving_calls 100
     [Invoke (1::nat), Elapse 40, Invoke 2, Elapse 99, Invoke 3, Elapse 60, Elapse 40,
      Elapse 500, Invoke 4, Elapse 10] = [3] \<and>
   snd (debounced_run (\<lambda>a w. w @ [a]) 100 (new_debounce 0, [])
     [Invoke (1::nat), Elapse 40, Invoke 2, Elapse 99, Invoke 3, Elapse 60, Elapse 40,
      Elapse 500, Invoke 4, Elapse 10]) = [3]"
proof -
  let ?evs = "[Invoke (1::nat), Elapse 40, Invoke 2, Elapse 99, Invoke 3, Elapse 60, Elapse 40,
      Elapse 500, Invoke 4, Elapse 10]"
  have s: "surviving_calls 100 ?evs = [3]"
    by simp
  have h: "(0::nat) < 100" by simp
  have e: "map (\<lambda>t. (time_left t, timer_args t))
     (pending (fst (debounced_run (\<lambda>a w. w @ [a]) 100 (new_debounce 0, [])
        ([Invoke (1::nat), Elapse 40] @ [Invoke 2])))) = [(100, 2)]"
    using debounce_trailing_edge [of "\<lambda>a w. w @ [a]" 100 0 "[]" "[Invoke 1, Elapse 40]" 2]
    by (rule conjunct1)
  have "snd (debounced_run (\<lambda>a w. w @ [a]) 100 (new_debounce 0, []) ?evs) =
        foldl (\<lambda>w a. w @ [a]) [] (surviving_calls 100 ?evs)"
    using debounce_trailing_edge [of "\<lambda>a w. w @ [a]" 100 0 "[]" ?evs 2] h
    by blast
  then have r: "snd (debounced_run (\<lambda>a w. w @ [a]) 100 (new_debounce 0, []) ?evs) = [3]"
    by (simp only: s) simp
  from h e s r show ?thesis by (intro conjI)
qed

text \<open>
  The clearing is what the result rests on. With a timer in the table that \<^verbatim>\<open>timeout\<close> does
  not name, and so a call does not clear, the old timer runs first, its \<^verbatim>\<open>later\<close> clears
  the timer of the newer call, and \<^verbatim>\<open>func\<close> runs with the old arguments.
\<close>

lemma uncleared_timer_wins:
  "snd (debounced_run (\<lambda>a w. w @ [a]) 100
     (\<lparr>timeout = None,
       pending = [\<lparr>timer_id = 0, time_left = 60, timer_args = 1::nat\<rparr>],
       next_id = 1\<rparr>, [])
     [Invoke 2, Elapse 100]) = [1]"
  by (simp add: debounced_run_def executedFunction_def setTimeout_def clearTimeout_def
      elapse_def run_timer_def later_def)

section \<open>Properties of the resize listener\<close>

lemma closeMobileMenu_closes:
  "menu_present st \<Longrightarrow> menu_closed (snd (closeMobileMenu st))"
  by (auto simp: menu_present_def menu_closed_def closeMobileMenu_present contains_remove)

lemma closeMobileMenu_keeps_present:
  "menu_present st \<Longrightarrow> menu_present (snd (closeMobileMenu st))"
  by (auto simp: menu_present_def closeMobileMenu_present)

lemma resize_listener_keeps_present:
  "menu_present st \<Longrightarrow> menu_present (snd (resize_listener st))"
  by (simp add: resize_listener_def closeMobileMenu_keeps_present)

lemma resize_step_invariant:
  assumes "single_timer s" and "menu_present st"
  shows "single_timer (fst (resize_step (s, st) ev)) \<and> menu_present (snd (resize_step (s, st) ev))"
proof (cases ev)
  case (Resize width)
  have p: "menu_present (st\<lparr>innerWidth := width\<rparr>)"
    using assms(2) by (simp add: menu_present_def)
  show ?thesis
    using Resize p executedFunction_single [OF assms(1), of 250 "()" "st\<lparr>innerWidth := width\<rparr>"]
    by (simp add: single_timer_def)
next
  case (Quiet d)
  let ?f = "\<lambda>_ st. snd (resize_listener st)"
  from assms(1) show ?thesis
  proof (rule single_timer_cases)
    assume "pending s = []"
    then show ?thesis using Quiet assms(2) elapse_empty [of s ?f d st]
      by (simp add: single_timer_def)
  next
    fix t assume t: "pending s = [t]" "timeout s = Some (timer_id t)"
    show ?thesis
    proof (cases "time_left t \<le> d")
      case True
      then show ?thesis
        using Quiet assms(2) elapse_fires [OF t True, of ?f st]
        by (simp add: single_timer_def resize_listener_keeps_present)
    next
      case False
      then show ?thesis
        using Quiet assms(2) elapse_waits [OF t(1) False, of ?f st] t(2)
        by (simp add: single_timer_def)
    qed
  qed
qed

lemma resize_run_invariant:
  "single_timer s \<Longrightarrow> menu_present st \<Longrightarrow>
   single_timer (fst (resize_run (s, st) evs)) \<and> menu_present (snd (resize_run (s, st) evs))"
  unfolding resize_run_def
proof (induction evs arbitrary: s st)
  case Nil
  then show ?case by simp
next
  case (Cons ev evs)
  obtain s' st' where e: "resize_step (s, st) ev = (s', st')"
    by (cases "resize_step (s, st) ev")
  have "single_timer s'" and "menu_present st'"
    using resize_step_invariant [OF Cons.prems, of ev] e by simp_all
  then have "single_timer (fst (foldl resize_step (s', st') evs)) \<and>
             menu_present (snd (foldl resize_step (s', st') evs))"
    by (rule Cons.IH)
  then show ?case by (simp add: e)
qed

lemma resize_run_idle:
  "pending s = [] \<Longrightarrow>
   pending (fst (resize_run (s, st) (map Quiet ds))) = [] \<and>
   snd (resize_run (s, st) (map Quiet ds)) = st"
  unfolding resize_run_def
proof (induction ds arbitrary: s)
  case Nil
  then show ?case by simp
next
  case (Cons d ds)
  let ?f = "\<lambda>_ st. snd (resize_listener st)"
  obtain s' st' where e: "elapse ?f d (s, st) = (s', st')"
    by (cases "elapse ?f d (s, st)")
  have "pending s' = []" and "st' = st"
    using elapse_empty [OF Cons.prems, of ?f d st] e by simp_all
  then show ?case using Cons.IH [of s'] by (simp add: e)
qed

lemma resize_run_fires:
  assumes "pending s = [t]" and "timeout s = Some (timer_id t)"
    and "0 < time_left t" and "time_left t \<le> sum_list ds"
  shows "pending (fst (resize_run (s, st) (map Quiet ds))) = [] \<and>
         snd (resize_run (s, st) (map Quiet ds)) = snd (resize_listener st)"
  using assms
proof (induction ds arbitrary: s t)
  case Nil
  then show ?case by simp
next
  case (Cons d ds)
  let ?f = "\<lambda>_ st. snd (resize_listener st)"
  obtain s' st' where e: "elapse ?f d (s, st) = (s', st')"
    by (cases "elapse ?f d (s, st)")
  have step: "resize_run (s, st) (Quiet d # map Quiet ds) = resize_run (s', st') (map Quiet ds)"
    by (simp add: resize_run_def e)
  show ?case
  proof (cases "time_left t \<le> d")
    case True
    have "pending s' = []" and "st' = snd (resize_listener st)"
      using elapse_fires [OF Cons.prems(1,2) True, of ?f st] e by simp_all
    then show ?thesis using resize_run_idle [of s' st' ds] by (simp add: step)
  next
    case False
    let ?t = "t\<lparr>time_left := time_left t - d\<rparr>"
    have p: "pending s' = [?t]" and q: "timeout s' = Some (timer_id ?t)" and w: "st' = st"
      using elapse_waits [OF Cons.prems(1) False, of ?f st] e Cons.prems(2) by simp_all
    have "0 < time_left ?t" and "time_left ?t \<le> sum_list ds"
      using False Cons.prems(4) by simp_all
    with p q have "pending (fst (resize_run (s', st) (map Quiet ds))) = [] \<and>
         snd (resize_run (s', st) (map Quiet ds)) = snd (resize_listener st)"
      by (rule Cons.IH)
    then show ?thesis by (simp add: step w)
  qed
qed

text \<open>
  C8. On a page that has the toggle and the container, with at most the timer that
  \<^verbatim>\<open>timeout\<close> names pending, after any sequence of resize events and pauses, a resize event
  to a width above 768 followed by pauses of 250 milliseconds or more in total leaves no
  timer pending and the menu closed.
\<close>

theorem resize_closes_menu:
  assumes "menu_present st" and "768 < width" and "250 \<le> sum_list ds" and "single_timer s"
  shows "pending (fst (resize_run (s, st) (pre @ Resize width # map Quiet ds))) = [] \<and>
         menu_closed (snd (resize_run (s, st) (pre @ Resize width # map Quiet ds)))"
proof -
  obtain s1 st1 where r1: "resize_run (s, st) pre = (s1, st1)"
    by (cases "resize_run (s, st) pre")
  have i1: "single_timer s1" "menu_present st1"
    using resize_run_invariant [OF assms(4,1), of pre] r1 by simp_all
  let ?st2 = "st1\<lparr>innerWidth := width\<rparr>"
  obtain s2 st2 where r2: "resize_step (s1, st1) (Resize width) = (s2, st2)"
    by (cases "resize_step (s1, st1) (Resize width)")
  have e: "pending s2 = [\<lparr>timer_id = next_id s1, time_left = 250, timer_args = ()\<rparr>]"
    "timeout s2 = Some (next_id s1)" "st2 = ?st2"
    using executedFunction_single [OF i1(1), of 250 "()" ?st2] r2 by simp_all
  have p2: "menu_present ?st2" using i1(2) by (simp add: menu_present_def)
  have run: "resize_run (s, st) (pre @ Resize width # map Quiet ds) =
        resize_run (s2, st2) (map Quiet ds)"
    using r1 r2 by (simp add: resize_run_def)
  have "pending (fst (resize_run (s2, st2) (map Quiet ds))) = [] \<and>
        snd (resize_run (s2, st2) (map Quiet ds)) = snd (resize_listener st2)"
    using e(1) by (rule resize_run_fires) (use e(2) assms(3) in simp_all)
  moreover have "snd (resize_listener st2) = snd (closeMobileMenu ?st2)"
    using assms(2) e(3) by (simp add: resize_listener_def)
  ultimately show ?thesis
    using closeMobileMenu_closes [OF p2] by (simp add: run)
qed

text \<open>
  The example page is 600 wide with its menu open; the resizes end at 900 and 250 quiet
  milliseconds follow.
\<close>

theorem resize_closes_menu_witness:
  "menuToggle demo_page = Some \<lparr>aria_expanded = Some ''true''\<rparr> \<and>
   innerWidth demo_page = 600 \<and>
   menu_present demo_page \<and> (768::int) < 900 \<and> (250::nat) \<le> sum_list [100, 150] \<and>
   single_timer (new_debounce 0 :: unit debounce) \<and>
   pending (fst (resize_run (new_debounce 0, demo_page)
          ([Resize 700, Quiet 100, Resize 800, Quiet 200] @ Resize 900 # map Quiet [100, 150]))) = [] \<and>
   menu_closed (snd (resize_run (new_debounce 0, demo_page)
          ([Resize 700, Quiet 100, Resize 800, Quiet 200] @ Resize 900 # map Quiet [100, 150])))"
proof -
  have a: "menuToggle demo_page = Some \<lparr>aria_expanded = Some ''true''\<rparr>"
    and b: "innerWidth demo_page = 600"
    and c: "menu_present demo_page"
    by (simp_all add: demo_page_def menu_present_def)
  have d: "(768::int) < 900" and e: "(250::nat) \<le> sum_list [100, 150]" by simp_all
  have f: "single_timer (new_debounce 0 :: unit debounce)"
    by (simp add: new_debounce_def single_timer_def)
  show ?thesis
    using a b c d e f
      resize_closes_menu [OF c d e f, of "[Resize 700, Quiet 100, Resize 800, Quiet 200]"]
    by blast
qed

end
